theory Spec2Isabelle
  imports
    Main
    "HOL-Library.Word"
    "HOL-Library.Signed_Division"
    "HOL-Library.Char_ord"
    "HOL-Library.List_Lexorder"
begin

section \<open>The library management system of library\_system.cpp\<close>

text \<open>
  The program keeps \<open>Book\<close> objects on the free store, owned by the vector \<open>books\<close> of
  \<open>LibraryManager\<close>, and indexes them twice by address: a chained hash table on the id
  and an unbalanced binary search tree on the title. Every member function writes to
  \<open>cout\<close>. The embedding keeps all of that: the free store is a list of books addressed
  by position, a \<open>Book*\<close> is such a position, \<open>cout\<close> is the text written so far, and an
  access outside the bucket array or through an address that holds no book is a fault.
\<close>

subsection \<open>Machine integers, strings and faults\<close>

text \<open>C++ \<open>int\<close>: 32 bits, read as two's complement by \<open>sint\<close>.\<close>

type_synonym cint = "32 word"

text \<open>A \<open>Book*\<close> that is not null: the position of the object on the free store.\<close>

type_synonym ptr = nat

datatype fault = OutOfBounds | BadPointer

definition endl :: string where
  "endl = [CHR 0x0A]"

text \<open>\<open>cout << n\<close> for an \<open>int\<close>: decimal digits, with a minus sign when negative.\<close>

definition digit :: "nat \<Rightarrow> char" where
  "digit d = char_of (48 + d)"

fun show_nat :: "nat \<Rightarrow> string" where
  "show_nat n = (if n < 10 then [digit n] else show_nat (n div 10) @ [digit (n mod 10)])"

declare show_nat.simps [simp del]

definition show_int :: "int \<Rightarrow> string" where
  "show_int i = (if i < 0 then CHR ''-'' # show_nat (nat (- i)) else show_nat (nat i))"

text \<open>\<open>left << setw(w) << s\<close>: the string, filled with blanks on the right up to width \<open>w\<close>.\<close>

definition setw_left :: "nat \<Rightarrow> string \<Rightarrow> string" where
  "setw_left w s = s @ replicate (w - length s) CHR '' ''"

subsection \<open>struct Book\<close>

record Book =
  book_id :: cint
  title :: string
  author :: string
  isAvailable :: bool

text \<open>The constructor \<open>Book(_id, _title, _author)\<close>.\<close>

definition new_Book :: "cint \<Rightarrow> string \<Rightarrow> string \<Rightarrow> Book" where
  "new_Book i t a = \<lparr>book_id = i, title = t, author = a, isAvailable = True\<rparr>"

definition printDetails :: "Book \<Rightarrow> string" where
  "printDetails b =
     ''['' @ show_int (sint (book_id b)) @ ''] ''
     @ setw_left 25 (title b)
     @ '' | '' @ setw_left 15 (author b)
     @ '' | '' @ (if isAvailable b then ''Available'' else ''Checked Out'') @ endl"

text \<open>Reading through a \<open>Book*\<close>.\<close>

definition deref :: "Book list \<Rightarrow> ptr \<Rightarrow> fault + Book" where
  "deref h p = (if p < length h then Inr (h ! p) else Inl BadPointer)"

subsection \<open>class HashTable\<close>

definition TABLE_SIZE :: int where
  "TABLE_SIZE = 101"

text \<open>\<open>key % TABLE_SIZE\<close> truncates towards zero, so it is negative for most negative keys.\<close>

definition hashFunction :: "cint \<Rightarrow> int" where
  "hashFunction key = sint key smod TABLE_SIZE"

text \<open>
  \<open>table[index]\<close> on the array of \<open>TABLE_SIZE\<close> chains. The array is a list here; it
  has \<open>TABLE_SIZE\<close> entries in every state the program reaches.
\<close>

definition bucket :: "ptr list list \<Rightarrow> int \<Rightarrow> fault + ptr list" where
  "bucket table index =
     (if 0 \<le> index \<and> index < TABLE_SIZE \<and> nat index < length table
      then Inr (table ! nat index) else Inl OutOfBounds)"

definition HashTable_insert :: "Book list \<Rightarrow> ptr list list \<Rightarrow> ptr \<Rightarrow> fault + ptr list list" where
  "HashTable_insert h table book =
     (case deref h book of
        Inl e \<Rightarrow> Inl e
      | Inr b \<Rightarrow>
          (let index = hashFunction (book_id b) in
           case bucket table index of
             Inl e \<Rightarrow> Inl e
           | Inr chain \<Rightarrow> Inr (table[nat index := chain @ [book]])))"

text \<open>The range-for loop of \<open>search\<close> over one chain; \<open>None\<close> is \<open>nullptr\<close>.\<close>

fun scan :: "Book list \<Rightarrow> ptr list \<Rightarrow> cint \<Rightarrow> fault + ptr option" where
  "scan h [] i = Inr None"
| "scan h (book # rest) i =
     (case deref h book of
        Inl e \<Rightarrow> Inl e
      | Inr b \<Rightarrow> if book_id b = i then Inr (Some book) else scan h rest i)"

definition HashTable_search :: "Book list \<Rightarrow> ptr list list \<Rightarrow> cint \<Rightarrow> fault + ptr option" where
  "HashTable_search h table i =
     (case bucket table (hashFunction i) of
        Inl e \<Rightarrow> Inl e
      | Inr chain \<Rightarrow> scan h chain i)"

subsection \<open>class BST\<close>

text \<open>A \<open>BSTNode*\<close>: null, or a node with its book and its two children.\<close>

datatype BSTNode = nullnode | BSTNode ptr BSTNode BSTNode

fun insertRecursive :: "Book list \<Rightarrow> BSTNode \<Rightarrow> ptr \<Rightarrow> fault + BSTNode" where
  "insertRecursive h nullnode book = Inr (BSTNode book nullnode nullnode)"
| "insertRecursive h (BSTNode nb l r) book =
     (case deref h book of
        Inl e \<Rightarrow> Inl e
      | Inr b \<Rightarrow>
     (case deref h nb of
        Inl e \<Rightarrow> Inl e
      | Inr n \<Rightarrow>
          if title b < title n then
            (case insertRecursive h l book of
               Inl e \<Rightarrow> Inl e
             | Inr l' \<Rightarrow> Inr (BSTNode nb l' r))
          else if title b > title n then
            (case insertRecursive h r book of
               Inl e \<Rightarrow> Inl e
             | Inr r' \<Rightarrow> Inr (BSTNode nb l r'))
          else Inr (BSTNode nb l r)))"

fun searchRecursive :: "Book list \<Rightarrow> BSTNode \<Rightarrow> string \<Rightarrow> fault + ptr option" where
  "searchRecursive h nullnode t = Inr None"
| "searchRecursive h (BSTNode nb l r) t =
     (case deref h nb of
        Inl e \<Rightarrow> Inl e
      | Inr n \<Rightarrow>
          if title n = t then Inr (Some nb)
          else if t < title n then searchRecursive h l t
          else searchRecursive h r t)"

text \<open>\<open>inorderPrint\<close> writes one line per node; the third argument is \<open>cout\<close> so far.\<close>

fun inorderPrint :: "Book list \<Rightarrow> BSTNode \<Rightarrow> string \<Rightarrow> fault + string" where
  "inorderPrint h nullnode out = Inr out"
| "inorderPrint h (BSTNode nb l r) out =
     (case inorderPrint h l out of
        Inl e \<Rightarrow> Inl e
      | Inr out1 \<Rightarrow>
     (case deref h nb of
        Inl e \<Rightarrow> Inl e
      | Inr n \<Rightarrow> inorderPrint h r (out1 @ printDetails n)))"

definition BST_insert :: "Book list \<Rightarrow> BSTNode \<Rightarrow> ptr \<Rightarrow> fault + BSTNode" where
  "BST_insert h root book = insertRecursive h root book"

definition BST_search :: "Book list \<Rightarrow> BSTNode \<Rightarrow> string \<Rightarrow> fault + ptr option" where
  "BST_search h root t = searchRecursive h root t"

definition printAll :: "Book list \<Rightarrow> BSTNode \<Rightarrow> string \<Rightarrow> fault + string" where
  "printAll h root out =
     (if root = nullnode then Inr (out @ ''No books in the library.'' @ endl)
      else inorderPrint h root out)"

subsection \<open>class LibraryManager\<close>

text \<open>
  The members \<open>books\<close>, \<open>idIndex\<close> (its array \<open>table\<close>) and \<open>titleIndex\<close> (its \<open>root\<close>),
  together with the free store of books and the text written to \<open>cout\<close>.
\<close>

record state =
  heap :: "Book list"
  books :: "ptr list"
  idIndex :: "ptr list list"
  titleIndex :: BSTNode
  cout :: string

text \<open>A manager just constructed: no book, \<open>TABLE_SIZE\<close> empty chains, a null root.\<close>

definition fresh :: state where
  "fresh = \<lparr>heap = [], books = [], idIndex = replicate 101 [], titleIndex = nullnode, cout = []\<rparr>"

definition addBook :: "cint \<Rightarrow> string \<Rightarrow> string \<Rightarrow> state \<Rightarrow> fault + state" where
  "addBook i t a s =
     (case HashTable_search (heap s) (idIndex s) i of
        Inl e \<Rightarrow> Inl e
      | Inr (Some found) \<Rightarrow>
          Inr (s\<lparr>cout := cout s @ ''Error: Book ID '' @ show_int (sint i) @ '' already exists.'' @ endl\<rparr>)
      | Inr None \<Rightarrow>
          (let newBook = length (heap s);
               h = heap s @ [new_Book i t a];
               bs = books s @ [newBook]
           in case HashTable_insert h (idIndex s) newBook of
                Inl e \<Rightarrow> Inl e
              | Inr table \<Rightarrow>
             (case BST_insert h (titleIndex s) newBook of
                Inl e \<Rightarrow> Inl e
              | Inr root \<Rightarrow>
                  Inr \<lparr>heap = h, books = bs, idIndex = table, titleIndex = root,
                       cout = cout s @ ''Added: '' @ t @ endl\<rparr>)))"

definition searchById :: "cint \<Rightarrow> state \<Rightarrow> fault + state" where
  "searchById i s =
     (case HashTable_search (heap s) (idIndex s) i of
        Inl e \<Rightarrow> Inl e
      | Inr (Some res) \<Rightarrow>
          (case deref (heap s) res of
             Inl e \<Rightarrow> Inl e
           | Inr b \<Rightarrow> Inr (s\<lparr>cout := cout s @ endl @ ''[Found by ID]'' @ endl @ printDetails b\<rparr>))
      | Inr None \<Rightarrow>
          Inr (s\<lparr>cout := cout s @ ''Book not found (ID: '' @ show_int (sint i) @ '')'' @ endl\<rparr>))"

definition searchByTitle :: "string \<Rightarrow> state \<Rightarrow> fault + state" where
  "searchByTitle t s =
     (case BST_search (heap s) (titleIndex s) t of
        Inl e \<Rightarrow> Inl e
      | Inr (Some res) \<Rightarrow>
          (case deref (heap s) res of
             Inl e \<Rightarrow> Inl e
           | Inr b \<Rightarrow> Inr (s\<lparr>cout := cout s @ endl @ ''[Found by Title]'' @ endl @ printDetails b\<rparr>))
      | Inr None \<Rightarrow>
          Inr (s\<lparr>cout := cout s @ ''Book not found (Title: '' @ t @ '')'' @ endl\<rparr>))"

definition showAllBooks :: "state \<Rightarrow> fault + state" where
  "showAllBooks s =
     (case printAll (heap s) (titleIndex s)
             (cout s @ endl @ ''=== Library Catalog (Sorted by Title) ==='' @ endl) of
        Inl e \<Rightarrow> Inl e
      | Inr out \<Rightarrow> Inr (s\<lparr>cout := out @ ''========================================='' @ endl\<rparr>))"

subsection \<open>Notions used to state the properties\<close>

text \<open>
  The lookup by key is \<open>HashTable_search\<close> on \<open>idIndex\<close>, as \<open>searchById\<close> and the
  duplicate check of \<open>addBook\<close> call it; the lookup by title is \<open>BST_search\<close> on
  \<open>titleIndex\<close>, as \<open>searchByTitle\<close> calls it; the sorted listing is what
  \<open>showAllBooks\<close> prints. A lookup answers \<open>Inr None\<close> for "no such book",
  \<open>Inr (Some p)\<close> for the book at address \<open>p\<close>, and \<open>Inl\<close> when it faults.
\<close>

text \<open>The books visited by \<open>inorderPrint\<close>, in the order it visits them.\<close>

fun inorder_ptrs :: "BSTNode \<Rightarrow> ptr list" where
  "inorder_ptrs nullnode = []"
| "inorder_ptrs (BSTNode nb l r) = inorder_ptrs l @ nb # inorder_ptrs r"

definition listed :: "state \<Rightarrow> Book list" where
  "listed s = map (\<lambda>p. heap s ! p) (inorder_ptrs (titleIndex s))"

definition title_at :: "Book list \<Rightarrow> ptr \<Rightarrow> string" where
  "title_at h p = title (h ! p)"

text \<open>A search tree over valid addresses: titles strictly increase along the in-order walk.\<close>

definition bst :: "Book list \<Rightarrow> BSTNode \<Rightarrow> bool" where
  "bst h t \<longleftrightarrow> (\<forall>p \<in> set (inorder_ptrs t). p < length h)
     \<and> sorted_wrt (<) (map (title_at h) (inorder_ptrs t))"

text \<open>The arguments of one \<open>addBook\<close> call, and the book that call constructs.\<close>

type_synonym call = "cint \<times> string \<times> string"

definition record_of :: "call \<Rightarrow> Book" where
  "record_of c = new_Book (fst c) (fst (snd c)) (snd (snd c))"

definition title_of :: "call \<Rightarrow> string" where
  "title_of c = fst (snd c)"

text \<open>The addresses whose id hashes to chain \<open>j\<close>, in allocation order.\<close>

definition chain_of :: "Book list \<Rightarrow> nat \<Rightarrow> ptr list" where
  "chain_of h j = filter (\<lambda>p. hashFunction (book_id (h ! p)) = int j) [0..<length h]"

text \<open>The addresses of the books that are the first with their title.\<close>

definition first_titled :: "Book list \<Rightarrow> ptr set" where
  "first_titled h = {p. p < length h \<and> (\<forall>q<p. title_at h q \<noteq> title_at h p)}"

text \<open>
  The states the program can be in. \<open>reach log s\<close>: starting from a manager just
  constructed, some sequence of calls of the four member functions has returned and left
  the state \<open>s\<close>; \<open>log\<close> lists, in order, the arguments of the \<open>addBook\<close> calls that
  passed the duplicate check and added a book. A call that faults has no state after it.
\<close>

inductive reach :: "call list \<Rightarrow> state \<Rightarrow> bool" where
  reach_fresh: "reach [] fresh"
| reach_added:
    "reach log s \<Longrightarrow> HashTable_search (heap s) (idIndex s) i = Inr None \<Longrightarrow>
     addBook i t a s = Inr s' \<Longrightarrow> reach (log @ [(i, t, a)]) s'"
| reach_rejected:
    "reach log s \<Longrightarrow> HashTable_search (heap s) (idIndex s) i = Inr (Some p) \<Longrightarrow>
     addBook i t a s = Inr s' \<Longrightarrow> reach log s'"
| reach_searchById: "reach log s \<Longrightarrow> searchById i s = Inr s' \<Longrightarrow> reach log s'"
| reach_searchByTitle: "reach log s \<Longrightarrow> searchByTitle t s = Inr s' \<Longrightarrow> reach log s'"
| reach_showAllBooks: "reach log s \<Longrightarrow> showAllBooks s = Inr s' \<Longrightarrow> reach log s'"

text \<open>What every reachable state satisfies.\<close>

definition inv :: "call list \<Rightarrow> state \<Rightarrow> bool" where
  "inv log s \<longleftrightarrow>
     heap s = map record_of log
   \<and> books s = [0..<length log]
   \<and> distinct (map fst log)
   \<and> (\<forall>c \<in> set log. 0 \<le> hashFunction (fst c))
   \<and> idIndex s = map (chain_of (heap s)) [0..<101]
   \<and> bst (heap s) (titleIndex s)
   \<and> set (inorder_ptrs (titleIndex s)) = first_titled (heap s)"

text \<open>Everything but \<open>cout\<close> is the same in both states.\<close>

definition same_catalog :: "state \<Rightarrow> state \<Rightarrow> bool" where
  "same_catalog s s' \<longleftrightarrow>
     heap s' = heap s \<and> books s' = books s \<and> idIndex s' = idIndex s \<and> titleIndex s' = titleIndex s"

text \<open>The scenario of three books titled Zed, Abe and Mid, added in that order.\<close>

definition demo_log :: "call list" where
  "demo_log = [(1001, ''Zed'', ''A''), (1002, ''Abe'', ''B''), (1003, ''Mid'', ''C'')]"

definition demo :: state where
  "demo = \<lparr>heap = map record_of demo_log,
            books = [0, 1, 2],
            idIndex = (replicate 101 [])[92 := [0], 93 := [1], 94 := [2]],
            titleIndex = BSTNode 0 (BSTNode 1 nullnode (BSTNode 2 nullnode nullnode)) nullnode,
            cout = ''Added: Zed'' @ endl @ ''Added: Abe'' @ endl @ ''Added: Mid'' @ endl\<rparr>"

section \<open>Properties\<close>

subsection \<open>The two indexes\<close>

lemma bst_null: "bst h nullnode" by (simp add: bst_def)

lemma bst_node:
  "bst h (BSTNode nb l r) \<longleftrightarrow> bst h l \<and> bst h r \<and> nb < length h
     \<and> (\<forall>p \<in> set (inorder_ptrs l). title_at h p < title_at h nb)
     \<and> (\<forall>p \<in> set (inorder_ptrs r). title_at h nb < title_at h p)"
  by (auto simp: bst_def sorted_wrt_append) (blast intro: less_trans)

lemma scan_find:
  "\<forall>p \<in> set chain. p < length h \<Longrightarrow>
   scan h chain i = Inr (find (\<lambda>p. book_id (h ! p) = i) chain)"
  by (induction chain) (auto simp: deref_def)

lemma search_hit:
  "bst h t \<Longrightarrow> p \<in> set (inorder_ptrs t) \<Longrightarrow> searchRecursive h t (title_at h p) = Inr (Some p)"
proof (induction t)
  case nullnode
  then show ?case by simp
next
  case (BSTNode nb l r)
  then show ?case
    by (auto simp: bst_node deref_def title_at_def)
qed

lemma search_miss:
  "bst h t \<Longrightarrow> x \<notin> title_at h ` set (inorder_ptrs t) \<Longrightarrow> searchRecursive h t x = Inr None"
  by (induction t) (auto simp: bst_node deref_def title_at_def)

lemma insert_bst:
  "bst h t \<Longrightarrow> p < length h \<Longrightarrow>
   \<exists>t'. insertRecursive h t p = Inr t' \<and> bst h t'
     \<and> set (inorder_ptrs t') =
         (if title_at h p \<in> title_at h ` set (inorder_ptrs t) then set (inorder_ptrs t)
          else insert p (set (inorder_ptrs t)))"
proof (induction t)
  case nullnode
  then show ?case by (simp add: bst_def)
next
  case (BSTNode nb l r)
  then show ?case
    by (auto simp: bst_node deref_def title_at_def)
qed

lemma inorderPrint_eq:
  "\<forall>p \<in> set (inorder_ptrs t). p < length h \<Longrightarrow>
   inorderPrint h t out = Inr (out @ concat (map (\<lambda>p. printDetails (h ! p)) (inorder_ptrs t)))"
  by (induction t arbitrary: out) (auto simp: deref_def)

lemma hash_range: "- 101 < hashFunction k \<and> hashFunction k < 101"
  using smod_int_range [of 101 "sint k"] by (simp add: hashFunction_def TABLE_SIZE_def)

lemma chains_empty: "map (chain_of []) [0..<101] = replicate 101 []"
proof -
  have "map (chain_of []) xs = replicate (length xs) []" for xs
    by (induction xs) (simp_all add: chain_of_def)
  from this [of "[0..<101]"] show ?thesis by simp
qed

lemma inv_fresh: "inv [] fresh"
  by (simp add: inv_def fresh_def bst_def first_titled_def chains_empty)

lemma find_upt_None: "find P [0..<n] = None \<longleftrightarrow> (\<forall>p<n. \<not> P p)"
  by (auto simp: find_None_iff)

lemma search_inv:
  assumes "inv log s"
  shows "HashTable_search (heap s) (idIndex s) i =
     (if hashFunction i < 0 then Inl OutOfBounds
      else Inr (find (\<lambda>p. book_id (heap s ! p) = i) [0..<length log]))"
proof (cases "hashFunction i < 0")
  case True
  then show ?thesis by (simp add: HashTable_search_def bucket_def)
next
  case False
  define j where "j = nat (hashFunction i)"
  have nn: "0 \<le> hashFunction i" using False by simp
  have j: "j < 101" "int j = hashFunction i"
    using nn hash_range [of i] by (auto simp: j_def)
  have len: "length (heap s) = length log" using assms by (simp add: inv_def)
  have tab: "idIndex s ! j = chain_of (heap s) j" "length (idIndex s) = 101"
    using assms j by (simp_all add: inv_def)
  have "0 \<le> hashFunction i \<and> hashFunction i < TABLE_SIZE \<and> nat (hashFunction i) < length (idIndex s)"
    using nn hash_range [of i] tab(2) by (simp add: TABLE_SIZE_def)
  then have "bucket (idIndex s) (hashFunction i) = Inr (chain_of (heap s) j)"
    using tab(1) by (simp add: bucket_def j_def)
  moreover have "scan (heap s) (chain_of (heap s) j) i
      = Inr (find (\<lambda>p. book_id (heap s ! p) = i) (chain_of (heap s) j))"
    by (rule scan_find) (simp add: chain_of_def)
  moreover have "find (\<lambda>p. book_id (heap s ! p) = i) (filter (\<lambda>p. hashFunction (book_id (heap s ! p)) = int j) xs)
      = find (\<lambda>p. book_id (heap s ! p) = i) xs" for xs
    using j by (induction xs) auto
  ultimately show ?thesis using False len
    by (simp add: HashTable_search_def chain_of_def)
qed

lemma chain_of_snoc:
  "chain_of (h @ [b]) j =
     chain_of h j @ (if hashFunction (book_id b) = int j then [length h] else [])"
proof -
  have "filter (\<lambda>p. hashFunction (book_id ((h @ [b]) ! p)) = int j) [0..<length h]
      = filter (\<lambda>p. hashFunction (book_id (h ! p)) = int j) [0..<length h]"
    by (rule filter_cong) (simp_all add: nth_append)
  then show ?thesis by (simp add: chain_of_def)
qed

lemma title_at_append: "p < length h \<Longrightarrow> title_at (h @ [b]) p = title_at h p"
  by (simp add: title_at_def nth_append)

lemma bst_append: "bst h t \<Longrightarrow> bst (h @ [b]) t"
proof -
  assume a: "bst h t"
  then have eq: "map (title_at (h @ [b])) (inorder_ptrs t) = map (title_at h) (inorder_ptrs t)"
    by (intro map_cong) (auto simp: bst_def title_at_append)
  show ?thesis using a unfolding bst_def eq by auto
qed

lemma titles_first: "title_at h ` first_titled h = title ` set h"
proof
  show "title_at h ` first_titled h \<subseteq> title ` set h"
    by (auto simp: first_titled_def title_at_def)
next
  show "title ` set h \<subseteq> title_at h ` first_titled h"
  proof
    fix x assume "x \<in> title ` set h"
    then obtain p where p: "p < length h" "title_at h p = x"
      by (auto simp: in_set_conv_nth title_at_def)
    define q where "q = (LEAST q. title_at h q = x)"
    have q: "title_at h q = x" unfolding q_def using p(2) by (rule LeastI)
    have "q \<le> p" unfolding q_def using p(2) by (rule Least_le)
    moreover have "\<forall>r<q. title_at h r \<noteq> x"
      unfolding q_def using not_less_Least by blast
    ultimately have "q \<in> first_titled h" using p(1) q by (simp add: first_titled_def)
    with q show "x \<in> title_at h ` first_titled h" by blast
  qed
qed

lemma first_titled_snoc:
  "first_titled (h @ [b]) =
     (if title b \<in> title ` set h then first_titled h else insert (length h) (first_titled h))"
proof -
  have old: "p \<in> first_titled (h @ [b]) \<longleftrightarrow> p \<in> first_titled h" if "p < length h" for p
    using that by (auto simp: first_titled_def title_at_append)
  have "title b \<in> title ` set h \<longleftrightarrow> (\<exists>q<length h. title (h ! q) = title b)"
    by (metis (no_types, lifting) image_iff in_set_conv_nth)
  then have new: "length h \<in> first_titled (h @ [b]) \<longleftrightarrow> title b \<notin> title ` set h"
    by (auto simp: first_titled_def title_at_def nth_append)
  have bound: "p \<in> first_titled (h @ [b]) \<Longrightarrow> p < length h \<or> p = length h" for p
    by (auto simp: first_titled_def)
  have bound': "p \<in> first_titled h \<Longrightarrow> p < length h" for p
    by (simp add: first_titled_def)
  show ?thesis using old new bound bound' by (auto split: if_splits)
qed

lemma book_id_record_of: "book_id (record_of c) = fst c"
  by (simp add: record_of_def new_Book_def)

lemma addBook_added:
  assumes I: "inv log s" and S: "HashTable_search (heap s) (idIndex s) i = Inr None"
  shows "\<exists>s'. addBook i t a s = Inr s' \<and> inv (log @ [(i, t, a)]) s'
            \<and> cout s' = cout s @ ''Added: '' @ t @ endl"
proof -
  let ?h = "heap s @ [new_Book i t a]"
  let ?n = "length (heap s)"
  have len: "?n = length log" using I by (simp add: inv_def)
  have nn: "0 \<le> hashFunction i" and none: "find (\<lambda>p. book_id (heap s ! p) = i) [0..<length log] = None"
    using S search_inv [OF I, of i] by (auto split: if_splits)
  have fresh_key: "i \<notin> fst ` set log"
  proof
    assume "i \<in> fst ` set log"
    then obtain p where "p < length log" "fst (log ! p) = i" by (auto simp: in_set_conv_nth)
    moreover have "heap s = map record_of log" using I by (simp add: inv_def)
    ultimately have "p < length log \<and> book_id (heap s ! p) = i" by (simp add: book_id_record_of)
    with none show False unfolding find_upt_None by blast
  qed
  have tab: "idIndex s = map (chain_of (heap s)) [0..<101]" using I by (simp add: inv_def)
  define j where "j = nat (hashFunction i)"
  have j: "j < 101" "int j = hashFunction i" using nn hash_range [of i] by (auto simp: j_def)
  have b: "0 \<le> hashFunction i \<and> hashFunction i < TABLE_SIZE \<and> nat (hashFunction i) < length (idIndex s)"
    using nn hash_range [of i] tab by (simp add: TABLE_SIZE_def)
  have ins: "HashTable_insert ?h (idIndex s) ?n = Inr ((idIndex s)[j := idIndex s ! j @ [?n]])"
    using b by (simp add: HashTable_insert_def deref_def bucket_def new_Book_def j_def Let_def)
  have tab': "(idIndex s)[j := idIndex s ! j @ [?n]] = map (chain_of ?h) [0..<101]"
  proof (rule nth_equalityI)
    show "length ((idIndex s)[j := idIndex s ! j @ [?n]]) = length (map (chain_of ?h) [0..<101])"
      using tab by simp
  next
    fix k assume "k < length ((idIndex s)[j := idIndex s ! j @ [?n]])"
    then have k: "k < 101" using tab by simp
    show "(idIndex s)[j := idIndex s ! j @ [?n]] ! k = map (chain_of ?h) [0..<101] ! k"
      using k j tab by (auto simp: nth_list_update chain_of_snoc new_Book_def)
  qed
  have B: "bst (heap s) (titleIndex s)" and F: "set (inorder_ptrs (titleIndex s)) = first_titled (heap s)"
    using I unfolding inv_def by blast+
  from insert_bst [OF bst_append [OF B], of ?n "new_Book i t a"]
  obtain t' where t': "insertRecursive ?h (titleIndex s) ?n = Inr t'" "bst ?h t'"
    "set (inorder_ptrs t') =
       (if title_at ?h ?n \<in> title_at ?h ` set (inorder_ptrs (titleIndex s))
        then set (inorder_ptrs (titleIndex s)) else insert ?n (set (inorder_ptrs (titleIndex s))))"
    by auto
  have "title_at ?h ` first_titled (heap s) = title_at (heap s) ` first_titled (heap s)"
    by (rule image_cong) (auto simp: first_titled_def title_at_append)
  then have "title_at ?h ` set (inorder_ptrs (titleIndex s)) = title ` set (heap s)"
    using F by (simp add: titles_first)
  moreover have "title_at ?h ?n = t" by (simp add: title_at_def new_Book_def)
  ultimately have set': "set (inorder_ptrs t') = first_titled ?h"
    using t'(3) F by (simp add: first_titled_snoc new_Book_def)
  have "inv (log @ [(i, t, a)]) \<lparr>heap = ?h, books = books s @ [?n], idIndex = (idIndex s)[j := idIndex s ! j @ [?n]],
          titleIndex = t', cout = cout s @ ''Added: '' @ t @ endl\<rparr>"
    using I fresh_key nn tab' t'(2) set' len
    by (simp add: inv_def record_of_def)
  then show ?thesis
    using S ins t'(1) by (simp add: addBook_def BST_insert_def Let_def)
qed

subsection \<open>What the member functions leave alone\<close>

lemma inv_cout: "inv log (s\<lparr>cout := out\<rparr>) = inv log s"
  by (simp add: inv_def)

lemma searchById_frame: "searchById i s = Inr s' \<Longrightarrow> \<exists>out. s' = s\<lparr>cout := out\<rparr>"
  by (auto simp: searchById_def split: sum.splits option.splits)

lemma searchByTitle_frame: "searchByTitle t s = Inr s' \<Longrightarrow> \<exists>out. s' = s\<lparr>cout := out\<rparr>"
  by (auto simp: searchByTitle_def split: sum.splits option.splits)

lemma showAllBooks_frame: "showAllBooks s = Inr s' \<Longrightarrow> \<exists>out. s' = s\<lparr>cout := out\<rparr>"
  by (auto simp: showAllBooks_def split: sum.splits)

lemma addBook_rejected:
  "HashTable_search (heap s) (idIndex s) i = Inr (Some p) \<Longrightarrow>
   addBook i t a s =
     Inr (s\<lparr>cout := cout s @ ''Error: Book ID '' @ show_int (sint i) @ '' already exists.'' @ endl\<rparr>)"
  by (simp add: addBook_def)

lemma reach_inv: "reach log s \<Longrightarrow> inv log s"
proof (induction rule: reach.induct)
  case reach_fresh
  show ?case by (rule inv_fresh)
next
  case (reach_added log s i t a s')
  from addBook_added [OF reach_added.IH reach_added.hyps(2), of t a] reach_added.hyps(3)
  show ?case by auto
next
  case (reach_rejected log s i p t a s')
  then show ?case by (auto simp: addBook_rejected inv_cout)
next
  case (reach_searchById log s i s')
  then show ?case by (auto dest!: searchById_frame simp: inv_cout)
next
  case (reach_searchByTitle log s t s')
  then show ?case by (auto dest!: searchByTitle_frame simp: inv_cout)
next
  case (reach_showAllBooks log s s')
  then show ?case by (auto dest!: showAllBooks_frame simp: inv_cout)
qed

lemma hashFunction_numeral [simp]:
  "hashFunction (numeral n) = sint (numeral n :: cint) smod 101"
  "hashFunction (- numeral n) = sint (- numeral n :: cint) smod 101"
  "hashFunction 1 = 1" "hashFunction 0 = 0" "hashFunction (- 1) = - 1"
  by (simp_all add: hashFunction_def TABLE_SIZE_def signed_modulo_int_def)

lemmas run_defs = addBook_def HashTable_search_def bucket_def TABLE_SIZE_def
  HashTable_insert_def deref_def BST_insert_def BST_search_def new_Book_def record_of_def Let_def

lemma reach_demo: "reach demo_log demo"
proof -
  define d1 where "d1 = \<lparr>heap = [new_Book 1001 ''Zed'' ''A''], books = [0],
      idIndex = (replicate 101 [])[92 := [0]], titleIndex = BSTNode 0 nullnode nullnode,
      cout = ''Added: Zed'' @ endl\<rparr>"
  define d2 where "d2 = \<lparr>heap = [new_Book 1001 ''Zed'' ''A'', new_Book 1002 ''Abe'' ''B''], books = [0, 1],
      idIndex = (replicate 101 [])[92 := [0], 93 := [1]],
      titleIndex = BSTNode 0 (BSTNode 1 nullnode nullnode) nullnode,
      cout = ''Added: Zed'' @ endl @ ''Added: Abe'' @ endl\<rparr>"
  have s0: "HashTable_search (heap fresh) (idIndex fresh) 1001 = Inr None"
    by (simp add: fresh_def run_defs)
  have a1: "addBook 1001 ''Zed'' ''A'' fresh = Inr d1"
    by (simp add: fresh_def d1_def run_defs)
  have s1: "HashTable_search (heap d1) (idIndex d1) 1002 = Inr None"
    by (simp add: d1_def run_defs)
  have a2: "addBook 1002 ''Abe'' ''B'' d1 = Inr d2"
    by (simp add: d1_def d2_def run_defs)
  have s2: "HashTable_search (heap d2) (idIndex d2) 1003 = Inr None"
    by (simp add: d2_def run_defs)
  have a3: "addBook 1003 ''Mid'' ''C'' d2 = Inr demo"
    by (simp add: d2_def demo_def demo_log_def run_defs numeral_2_eq_2)
  from reach_added [OF reach_added [OF reach_added [OF reach_fresh s0 a1] s1 a2] s2 a3]
  show ?thesis by (simp add: demo_log_def)
qed

subsection \<open>Lookups in a reachable state\<close>

lemma invD:
  assumes "inv log s"
  shows "heap s = map record_of log" and "books s = [0..<length log]"
    and "distinct (map fst log)" and "\<forall>c \<in> set log. 0 \<le> hashFunction (fst c)"
    and "idIndex s = map (chain_of (heap s)) [0..<101]"
    and "bst (heap s) (titleIndex s)"
    and "set (inorder_ptrs (titleIndex s)) = first_titled (heap s)"
    and "length (heap s) = length log"
  using assms unfolding inv_def by auto

lemma inv_heap_nth: "inv log s \<Longrightarrow> p < length log \<Longrightarrow> heap s ! p = record_of (log ! p)"
  by (simp add: invD(1))

lemma lookup_present:
  assumes I: "inv log s" and p: "p < length log"
  shows "HashTable_search (heap s) (idIndex s) (fst (log ! p)) = Inr (Some p)"
proof -
  have d: "distinct (map fst log)" and nn: "0 \<le> hashFunction (fst (log ! p))"
    using invD(3,4) [OF I] p by auto
  have P: "book_id (heap s ! q) = fst (log ! p) \<longleftrightarrow> q = p" if "q < length log" for q
    using d p that inv_heap_nth [OF I that]
    by (auto simp: book_id_record_of distinct_conv_nth)
  have "find (\<lambda>q. book_id (heap s ! q) = fst (log ! p)) [0..<length log] = Some p"
    unfolding find_Some_iff using p P by (intro exI [of _ p]) auto
  then show ?thesis using nn by (simp add: search_inv [OF I])
qed

lemma lookup_absent:
  assumes I: "inv log s" and nn: "0 \<le> hashFunction i" and new: "i \<notin> fst ` set log"
  shows "HashTable_search (heap s) (idIndex s) i = Inr None"
proof -
  have "book_id (heap s ! q) \<noteq> i" if "q < length log" for q
    using new that inv_heap_nth [OF I that] by (auto simp: book_id_record_of)
  then have "find (\<lambda>q. book_id (heap s ! q) = i) [0..<length log] = None"
    by (simp add: find_upt_None)
  then show ?thesis using nn by (simp add: search_inv [OF I])
qed

lemma title_at_log: "inv log s \<Longrightarrow> p < length log \<Longrightarrow> title_at (heap s) p = title_of (log ! p)"
  by (simp add: inv_heap_nth title_at_def record_of_def new_Book_def title_of_def)

lemma titles_log: "inv log s \<Longrightarrow> title ` set (heap s) = title_of ` set log"
  by (force simp: invD(1) record_of_def new_Book_def title_of_def image_iff)

lemma first_titled_log:
  assumes I: "inv log s"
  shows "p \<in> first_titled (heap s) \<longleftrightarrow> p < length log \<and> (\<forall>q<p. title_of (log ! q) \<noteq> title_of (log ! p))"
proof -
  show ?thesis
    using title_at_log [OF I] by (auto simp: first_titled_def invD(8) [OF I])
qed

lemma title_lookup_first:
  assumes I: "inv log s" and p: "p < length log" and first: "\<forall>q<p. title_of (log ! q) \<noteq> title_of (log ! p)"
  shows "BST_search (heap s) (titleIndex s) (title_of (log ! p)) = Inr (Some p)"
proof -
  have "p \<in> set (inorder_ptrs (titleIndex s))"
    using p first first_titled_log [OF I, of p] by (simp add: invD(7) [OF I])
  moreover have "bst (heap s) (titleIndex s)" by (rule invD(6) [OF I])
  ultimately have "searchRecursive (heap s) (titleIndex s) (title_at (heap s) p) = Inr (Some p)"
    by (rule search_hit [rotated])
  then show ?thesis by (simp add: BST_search_def title_at_log [OF I p])
qed

lemma title_lookup_absent:
  assumes I: "inv log s" and new: "x \<notin> title_of ` set log"
  shows "BST_search (heap s) (titleIndex s) x = Inr None"
proof -
  have "title_at (heap s) ` set (inorder_ptrs (titleIndex s)) = title_of ` set log"
    using titles_first [of "heap s"] titles_log [OF I] by (simp add: invD(7) [OF I])
  then show ?thesis using new by (simp add: BST_search_def search_miss [OF invD(6) [OF I]])
qed

lemma listed_titles: "map title (listed s) = map (title_at (heap s)) (inorder_ptrs (titleIndex s))"
  by (simp add: listed_def title_at_def)

lemma listed_strict:
  "inv log s \<Longrightarrow> sorted_wrt (<) (map title (listed s))"
  using invD(6) [of log s] by (simp add: listed_titles bst_def)

lemma listed_length:
  assumes I: "inv log s"
  shows "length (listed s) = card (title_of ` set log)"
proof -
  have "distinct (map title (listed s))"
    using listed_strict [OF I] strict_sorted_iff by blast
  then have "length (map title (listed s)) = card (set (map title (listed s)))"
    by (simp only: distinct_card)
  also have "set (map title (listed s)) = title_at (heap s) ` first_titled (heap s)"
    by (simp add: listed_titles invD(7) [OF I])
  also have "\<dots> = title_of ` set log" by (simp add: titles_first titles_log [OF I])
  finally show ?thesis by simp
qed

lemma showAllBooks_listed:
  assumes I: "inv log s"
  shows "showAllBooks s = Inr (s\<lparr>cout := cout s @ endl @ ''=== Library Catalog (Sorted by Title) ==='' @ endl
            @ (if listed s = [] then ''No books in the library.'' @ endl
               else concat (map printDetails (listed s)))
            @ ''========================================='' @ endl\<rparr>)"
proof -
  have v: "\<forall>p \<in> set (inorder_ptrs (titleIndex s)). p < length (heap s)"
    using invD(6) [OF I] by (simp add: bst_def)
  have e: "inorder_ptrs (titleIndex s) = [] \<longleftrightarrow> titleIndex s = nullnode"
    by (cases "titleIndex s") simp_all
  show ?thesis
    by (simp add: showAllBooks_def printAll_def e inorderPrint_eq [OF v] listed_def comp_def)
qed

lemma count_chain:
  "count_list (chain_of h j) p = (if p < length h \<and> hashFunction (book_id (h ! p)) = int j then 1 else 0)"
proof -
  have "count_list (filter P [0..<n]) p = (if p < n \<and> P p then 1 else 0)" for P n
    by (induction n) auto
  then show ?thesis by (simp add: chain_of_def)
qed

lemma smod_mod: "0 \<le> (k::int) smod 101 \<Longrightarrow> k smod 101 = k mod 101"
proof (cases "0 \<le> k")
  case True
  then show ?thesis by (simp add: smod_mod_positive)
next
  case False
  assume nn: "0 \<le> k smod 101"
  have "k smod 101 \<le> 0" using False smod_int_compares(4) [of k 101] by simp
  with nn have z: "k smod 101 = 0" by simp
  then have "\<bar>k\<bar> mod 101 = 0" using False by (simp add: signed_modulo_int_def)
  then have "101 dvd k" by (simp add: dvd_eq_mod_eq_0 [symmetric])
  with z show ?thesis by simp
qed

lemma hash_mod: "0 \<le> hashFunction k \<Longrightarrow> hashFunction k = sint k mod 101"
  by (simp add: hashFunction_def TABLE_SIZE_def smod_mod)

subsection \<open>The claims about reachable states\<close>

lemma books_reach: "reach log s \<Longrightarrow> p \<in> set (books s) \<longleftrightarrow> p < length log"
  by (simp add: invD(2) [OF reach_inv])

text \<open>
  C1. In every reachable state, when some book owned by the manager already has the id
  \<open>i\<close>, \<open>addBook i t a\<close> is rejected: it returns the state it was given with only
  the line \<open>Error: Book ID i already exists.\<close> added to \<open>cout\<close>. The free store (so no
  new \<open>Book\<close>), the vector \<open>books\<close> and its length, the hash table and the search tree
  are unchanged.
\<close>
theorem addBook_duplicate_key:
  assumes "reach log s" and "p \<in> set (books s)" and "deref (heap s) p = Inr b" and "book_id b = i"
  shows "\<exists>s'. addBook i t a s = Inr s'
           \<and> s' = s\<lparr>cout := cout s @ ''Error: Book ID '' @ show_int (sint i) @ '' already exists.'' @ endl\<rparr>
           \<and> heap s' = heap s \<and> books s' = books s \<and> length (books s') = length (books s)
           \<and> idIndex s' = idIndex s \<and> titleIndex s' = titleIndex s"
proof -
  have I: "inv log s" using assms(1) by (rule reach_inv)
  have p: "p < length log" using assms(1,2) by (simp add: books_reach)
  have "b = heap s ! p" using assms(3) by (auto simp: deref_def split: if_splits)
  then have "i = fst (log ! p)"
    using assms(4) inv_heap_nth [OF I p] by (simp add: book_id_record_of)
  then have "HashTable_search (heap s) (idIndex s) i = Inr (Some p)"
    using lookup_present [OF I p] by simp
  then show ?thesis by (simp add: addBook_rejected)
qed

theorem addBook_duplicate_key_witness:
  "addBook 1002 ''Dup'' ''Z'' demo =
     Inr (demo\<lparr>cout := cout demo @ ''Error: Book ID '' @ show_int 1002 @ '' already exists.'' @ endl\<rparr>)"
proof -
  have h2: "1 \<in> set (books demo)" by (simp add: demo_def)
  have h3: "deref (heap demo) 1 = Inr (new_Book 1002 ''Abe'' ''B'')"
    by (simp add: demo_def demo_log_def deref_def record_of_def)
  have h4: "book_id (new_Book 1002 ''Abe'' ''B'') = 1002" by (simp add: new_Book_def)
  show ?thesis
    using addBook_duplicate_key [OF reach_demo h2 h3 h4, of "''Dup''" "''Z''"] by auto
qed

text \<open>
  C3. In every reachable state the books that \<open>showAllBooks\<close> prints come in
  non-decreasing (indeed strictly increasing) lexicographic order of title, and their
  number is the number of distinct titles among the books added so far.
\<close>
theorem listing_sorted_by_title:
  assumes "reach log s"
  shows "sorted (map title (listed s))
       \<and> sorted_wrt (<) (map title (listed s))
       \<and> length (listed s) = card (title_of ` set log)
       \<and> set (listed s) \<subseteq> set (heap s)
       \<and> showAllBooks s =
           Inr (s\<lparr>cout := cout s @ endl @ ''=== Library Catalog (Sorted by Title) ==='' @ endl
                  @ (if listed s = [] then ''No books in the library.'' @ endl
                     else concat (map printDetails (listed s)))
                  @ ''========================================='' @ endl\<rparr>)"
proof -
  have I: "inv log s" using assms by (rule reach_inv)
  have "sorted_wrt (<) (map title (listed s))" by (rule listed_strict [OF I])
  moreover from this have "sorted (map title (listed s))" by (rule strict_sorted_imp_sorted)
  moreover have "length (listed s) = card (title_of ` set log)" by (rule listed_length [OF I])
  moreover have "set (listed s) \<subseteq> set (heap s)"
    using invD(6) [OF I] by (auto simp: listed_def bst_def)
  ultimately show ?thesis using showAllBooks_listed [OF I] by simp
qed

theorem listing_sorted_by_title_witness:
  "map title (listed demo) = [''Abe'', ''Mid'', ''Zed'']
   \<and> sorted (map title (listed demo))
   \<and> length (listed demo) = card (title_of ` set demo_log)
   \<and> card (title_of ` set demo_log) = 3"
proof -
  have "map title (listed demo) = [''Abe'', ''Mid'', ''Zed'']"
    by (simp add: listed_def demo_def demo_log_def record_of_def new_Book_def)
  moreover have "card (title_of ` set demo_log) = 3"
    by (simp add: demo_log_def title_of_def)
  ultimately show ?thesis using listing_sorted_by_title [OF reach_demo] by simp
qed

text \<open>
  C5. In every reachable state, each address in \<open>books\<close> holds a book, and it occurs
  exactly once in the chain numbered \<open>id mod 101\<close> and in no other chain of the table.
\<close>
theorem every_book_in_one_chain:
  assumes "reach log s" and "p \<in> set (books s)"
  shows "\<exists>b. deref (heap s) p = Inr b \<and> length (idIndex s) = 101
           \<and> (\<forall>j<101. count_list (idIndex s ! j) p = (if int j = sint (book_id b) mod 101 then 1 else 0))"
proof -
  have I: "inv log s" using assms(1) by (rule reach_inv)
  have p: "p < length log" using assms by (simp add: books_reach)
  have len: "length (heap s) = length log" by (rule invD(8) [OF I])
  have "0 \<le> hashFunction (fst (log ! p))" using invD(4) [OF I] p by simp
  then have nn: "0 \<le> hashFunction (book_id (heap s ! p))"
    by (simp add: inv_heap_nth [OF I p] book_id_record_of)
  have "count_list (idIndex s ! j) p = (if int j = sint (book_id (heap s ! p)) mod 101 then 1 else 0)"
    if "j < 101" for j
    using that p len hash_mod [OF nn] by (auto simp: invD(5) [OF I] count_chain)
  then show ?thesis using p len by (simp add: deref_def invD(5) [OF I])
qed

theorem every_book_in_one_chain_witness:
  "count_list (idIndex demo ! 93) 1 = 1 \<and> count_list (idIndex demo ! 92) 1 = 0
   \<and> sint (1002 :: cint) mod 101 = 93"
proof -
  have h2: "1 \<in> set (books demo)" by (simp add: demo_def)
  have d: "deref (heap demo) 1 = Inr (new_Book 1002 ''Abe'' ''B'')"
    by (simp add: demo_def demo_log_def deref_def record_of_def)
  from every_book_in_one_chain [OF reach_demo h2] d
  have "\<forall>j<101. count_list (idIndex demo ! j) 1
           = (if int j = sint (book_id (new_Book 1002 ''Abe'' ''B'')) mod 101 then 1 else 0)"
    by auto
  then have "count_list (idIndex demo ! 93) 1 = (if int 93 = sint (book_id (new_Book 1002 ''Abe'' ''B'')) mod 101 then 1 else 0)"
    and "count_list (idIndex demo ! 92) 1 = (if int 92 = sint (book_id (new_Book 1002 ''Abe'' ''B'')) mod 101 then 1 else 0)"
    by simp_all
  then show ?thesis by (simp add: new_Book_def)
qed

text \<open>
  C6. In every reachable state, for the \<open>p\<close>-th added book \<open>(i, t, a)\<close>, when no book
  added earlier has the title \<open>t\<close>: the search by id \<open>i\<close> and the search by title
  \<open>t\<close> both find the same object, which holds \<open>i\<close>, \<open>t\<close>, \<open>a\<close> and is available, and
  \<open>searchById\<close> and \<open>searchByTitle\<close> print the same details.
\<close>
theorem lookups_agree:
  assumes "reach log s" and "p < length log" and "log ! p = (i, t, a)"
    and "\<forall>q<p. title_of (log ! q) \<noteq> t"
  shows "HashTable_search (heap s) (idIndex s) i = Inr (Some p)
       \<and> BST_search (heap s) (titleIndex s) t = Inr (Some p)
       \<and> deref (heap s) p = Inr (new_Book i t a)
       \<and> searchById i s =
           Inr (s\<lparr>cout := cout s @ endl @ ''[Found by ID]'' @ endl @ printDetails (new_Book i t a)\<rparr>)
       \<and> searchByTitle t s =
           Inr (s\<lparr>cout := cout s @ endl @ ''[Found by Title]'' @ endl @ printDetails (new_Book i t a)\<rparr>)"
proof -
  have I: "inv log s" using assms(1) by (rule reach_inv)
  have k: "HashTable_search (heap s) (idIndex s) i = Inr (Some p)"
    using lookup_present [OF I assms(2)] assms(3) by simp
  have tl: "title_of (log ! p) = t" using assms(3) by (simp add: title_of_def)
  have t: "BST_search (heap s) (titleIndex s) t = Inr (Some p)"
    using title_lookup_first [OF I assms(2)] assms(4) tl by simp
  have d: "deref (heap s) p = Inr (new_Book i t a)"
    using assms(2,3) inv_heap_nth [OF I assms(2)] invD(8) [OF I]
    by (simp add: deref_def record_of_def)
  show ?thesis using k t d by (simp add: searchById_def searchByTitle_def)
qed

theorem lookups_agree_witness:
  "HashTable_search (heap demo) (idIndex demo) 1002 = Inr (Some 1)
   \<and> BST_search (heap demo) (titleIndex demo) ''Abe'' = Inr (Some 1)
   \<and> deref (heap demo) 1 = Inr (new_Book 1002 ''Abe'' ''B'')"
proof -
  have h2: "1 < length demo_log" by (simp add: demo_log_def)
  have h3: "demo_log ! 1 = (1002, ''Abe'', ''B'')" by (simp add: demo_log_def)
  have h4: "\<forall>q<1. title_of (demo_log ! q) \<noteq> ''Abe''" by (simp add: demo_log_def title_of_def)
  show ?thesis using lookups_agree [OF reach_demo h2 h3 h4] by simp
qed

subsection \<open>Reads, output and the range of the hash\<close>

text \<open>
  C10. In any state and for any argument, a call of \<open>searchById\<close>, \<open>searchByTitle\<close> or
  \<open>showAllBooks\<close> that returns leaves the free store (every field of every book), the
  vector \<open>books\<close>, the hash table and the search tree as they were.
\<close>
theorem queries_read_only:
  "(searchById i s = Inr s1 \<longrightarrow> same_catalog s s1)
 \<and> (searchByTitle t s = Inr s2 \<longrightarrow> same_catalog s s2)
 \<and> (showAllBooks s = Inr s3 \<longrightarrow> same_catalog s s3)"
  by (auto simp: same_catalog_def dest!: searchById_frame searchByTitle_frame showAllBooks_frame)

lemma demo_searchById:
  "searchById 1002 demo =
     Inr (demo\<lparr>cout := cout demo @ endl @ ''[Found by ID]'' @ endl @ printDetails (new_Book 1002 ''Abe'' ''B'')\<rparr>)"
  by (simp add: searchById_def demo_def demo_log_def run_defs)

lemma demo_searchByTitle:
  "searchByTitle ''Nil'' demo = Inr (demo\<lparr>cout := cout demo @ ''Book not found (Title: Nil)'' @ endl\<rparr>)"
  by (simp add: searchByTitle_def demo_def demo_log_def run_defs)

lemma fresh_showAllBooks:
  "showAllBooks fresh =
     Inr (fresh\<lparr>cout := endl @ ''=== Library Catalog (Sorted by Title) ==='' @ endl
            @ ''No books in the library.'' @ endl
            @ ''========================================='' @ endl\<rparr>)"
  by (simp add: showAllBooks_def printAll_def fresh_def)

theorem queries_read_only_witness:
  "same_catalog demo
     (demo\<lparr>cout := cout demo @ endl @ ''[Found by ID]'' @ endl @ printDetails (new_Book 1002 ''Abe'' ''B'')\<rparr>)
 \<and> same_catalog demo (demo\<lparr>cout := cout demo @ ''Book not found (Title: Nil)'' @ endl\<rparr>)
 \<and> same_catalog fresh
     (fresh\<lparr>cout := endl @ ''=== Library Catalog (Sorted by Title) ==='' @ endl
            @ ''No books in the library.'' @ endl
            @ ''========================================='' @ endl\<rparr>)"
  using queries_read_only [of 1002 demo _ "''Nil''" _ demo] queries_read_only [of _ fresh _ _ _ _]
    demo_searchById demo_searchByTitle fresh_showAllBooks
  by simp

lemma fresh_addBook:
  "addBook 1 ''A'' ''x'' fresh =
     Inr \<lparr>heap = [new_Book 1 ''A'' ''x''], books = [0], idIndex = (replicate 101 [])[1 := [0]],
          titleIndex = BSTNode 0 nullnode nullnode, cout = ''Added: A'' @ endl\<rparr>"
  by (simp add: fresh_def run_defs)

text \<open>
  C8 as stated fails: on a manager just constructed, \<open>cout\<close> is empty, and
  \<open>addBook 1 "A" "x"\<close> itself writes the line \<open>Added: A\<close>.
\<close>
theorem core_output_counterexample:
  "cout fresh = []
   \<and> addBook 1 ''A'' ''x'' fresh =
       Inr \<lparr>heap = [new_Book 1 ''A'' ''x''], books = [0], idIndex = (replicate 101 [])[1 := [0]],
            titleIndex = BSTNode 0 nullnode nullnode, cout = ''Added: A'' @ endl\<rparr>
   \<and> ''Added: A'' @ endl \<noteq> []"
  by (simp add: fresh_def run_defs)

text \<open>
  C9, as amended. For a key that is not negative the hash lies in \<open>[0, TABLE_SIZE)\<close>
  and the chain read is a chain of the table. For a negative key it lies in
  \<open>(-TABLE_SIZE, 0]\<close>, and it is \<open>0\<close> exactly when the key is a multiple of 101. Whenever
  the hash is negative, the access to the array of chains is out of bounds, in
  \<open>search\<close> and \<open>insert\<close> of the table and so in \<open>addBook\<close> and \<open>searchById\<close>.
\<close>
theorem hashFunction_range:
  "(0 \<le> sint key \<longrightarrow> 0 \<le> hashFunction key \<and> hashFunction key < TABLE_SIZE)
 \<and> (sint key < 0 \<longrightarrow> - TABLE_SIZE < hashFunction key \<and> hashFunction key \<le> 0
       \<and> (hashFunction key = 0 \<longleftrightarrow> 101 dvd sint key))
 \<and> (0 \<le> hashFunction key \<and> length table = 101 \<longrightarrow>
       bucket table (hashFunction key) = Inr (table ! nat (hashFunction key)))
 \<and> (hashFunction key < 0 \<longrightarrow>
       bucket table (hashFunction key) = Inl OutOfBounds
     \<and> HashTable_search h table key = Inl OutOfBounds
     \<and> (deref h p = Inr b \<and> book_id b = key \<longrightarrow> HashTable_insert h table p = Inl OutOfBounds)
     \<and> addBook key t a s = Inl OutOfBounds
     \<and> searchById key s = Inl OutOfBounds)"
proof -
  have pos: "0 \<le> sint key \<longrightarrow> 0 \<le> hashFunction key \<and> hashFunction key < TABLE_SIZE"
    using smod_int_compares(1,2) [of "sint key" 101] by (simp add: hashFunction_def TABLE_SIZE_def)
  have neg: "sint key < 0 \<longrightarrow> - TABLE_SIZE < hashFunction key \<and> hashFunction key \<le> 0
       \<and> (hashFunction key = 0 \<longleftrightarrow> 101 dvd sint key)"
  proof
    assume n: "sint key < 0"
    have "- 101 < sint key smod 101" "sint key smod 101 \<le> 0"
      using n smod_int_compares(3,4) [of "sint key" 101] by simp_all
    moreover have "sint key smod 101 = 0 \<longleftrightarrow> 101 dvd sint key"
    proof -
      have "sint key smod 101 = 0 \<longleftrightarrow> 101 dvd \<bar>sint key\<bar>"
        using n by (simp add: signed_modulo_int_def dvd_eq_mod_eq_0)
      then show ?thesis by simp
    qed
    ultimately show "- TABLE_SIZE < hashFunction key \<and> hashFunction key \<le> 0
       \<and> (hashFunction key = 0 \<longleftrightarrow> 101 dvd sint key)"
      by (simp add: hashFunction_def TABLE_SIZE_def)
  qed
  have inb: "0 \<le> hashFunction key \<and> length table = 101 \<longrightarrow>
       bucket table (hashFunction key) = Inr (table ! nat (hashFunction key))"
    using hash_range [of key] by (auto simp: bucket_def TABLE_SIZE_def)
  have oob: "hashFunction key < 0 \<longrightarrow>
       bucket table (hashFunction key) = Inl OutOfBounds
     \<and> HashTable_search h table key = Inl OutOfBounds
     \<and> (deref h p = Inr b \<and> book_id b = key \<longrightarrow> HashTable_insert h table p = Inl OutOfBounds)
     \<and> addBook key t a s = Inl OutOfBounds
     \<and> searchById key s = Inl OutOfBounds"
    by (auto simp: bucket_def HashTable_search_def HashTable_insert_def addBook_def searchById_def Let_def)
  from pos neg inb oob show ?thesis by blast
qed

theorem hashFunction_range_witness:
  "hashFunction 1001 = 92 \<and> bucket (idIndex demo) (hashFunction 1001) = Inr (idIndex demo ! 92)
   \<and> hashFunction (- 1) = - 1 \<and> searchById (- 1) fresh = Inl OutOfBounds
   \<and> hashFunction (- 101) = 0 \<and> 0 \<le> hashFunction 1001 \<and> hashFunction 1001 < TABLE_SIZE"
proof -
  have a: "0 \<le> sint (1001 :: cint)" by simp
  have b: "hashFunction 1001 = 92" by simp
  have c: "length (idIndex demo) = 101" by (simp add: demo_def)
  have d: "hashFunction (- 1) < 0" by simp
  have e: "hashFunction (- 101) = 0" by simp
  show ?thesis
    using hashFunction_range [of 1001 "idIndex demo"] hashFunction_range [of "- 1" _ _ _ _ _ _ fresh]
      a b c d e
    by simp
qed

text \<open>
  C9 as stated fails: the key \<open>-101\<close> is negative, its hash is \<open>0\<close>, not negative, and
  the search for it reads chain 0 and answers that there is no such book.
\<close>
theorem negative_multiple_counterexample:
  "sint (- 101 :: cint) < 0 \<and> hashFunction (- 101) = 0
   \<and> HashTable_search (heap fresh) (idIndex fresh) (- 101) = Inr None"
  by (simp add: fresh_def run_defs)

text \<open>
  C7. On a manager just constructed the search for the id \<open>-1\<close> does not answer
  "absent": the hash is \<open>-1\<close> and \<open>table[-1]\<close> is read, outside the array.
\<close>
theorem fresh_negative_key:
  "HashTable_search (heap fresh) (idIndex fresh) (- 1) = Inl OutOfBounds
   \<and> searchById (- 1) fresh = Inl OutOfBounds"
  by (simp add: searchById_def fresh_def run_defs)

text \<open>
  C4. After the three books 1001, 1002 and 1003 were added, the id \<open>-1\<close> was never
  added, yet the search for it does not answer "absent": it reads \<open>table[-1]\<close>.
\<close>
theorem lookup_negative_key:
  "reach demo_log demo \<and> - 1 \<notin> fst ` set demo_log
   \<and> HashTable_search (heap demo) (idIndex demo) (- 1) = Inl OutOfBounds
   \<and> searchById (- 1) demo = Inl OutOfBounds"
proof -
  have "- 1 \<notin> fst ` set demo_log" by (simp add: demo_log_def)
  moreover have "HashTable_search (heap demo) (idIndex demo) (- 1) = Inl OutOfBounds"
    by (simp add: demo_def run_defs)
  moreover from this have "searchById (- 1) demo = Inl OutOfBounds"
    by (simp add: searchById_def)
  ultimately show ?thesis using reach_demo by simp
qed

text \<open>
  C2. The first of the two calls \<open>addBook(-1, "A", "x")\<close>, \<open>addBook(2, "A", "y")\<close> on
  a manager just constructed does not succeed: its duplicate check reads \<open>table[-1]\<close>.
\<close>
theorem shadowing_negative_key:
  "addBook (- 1) ''A'' ''x'' fresh = Inl OutOfBounds"
  by (simp add: fresh_def run_defs)

subsection \<open>Keys whose hash is in range\<close>

text \<open>
  What C2, C4 and C7 say does hold for the keys whose hash is not negative: an added
  book is found with the fields it was created with, a key never added is reported as
  not found, a manager just constructed lists nothing and finds nothing, and of two
  books added with one title both are found by key, the first by title, and one is
  listed.
\<close>

lemma found_by_key:
  assumes "reach log s" and "(i, t, a) \<in> set log"
  shows "\<exists>p. HashTable_search (heap s) (idIndex s) i = Inr (Some p)
           \<and> deref (heap s) p = Inr (new_Book i t a)
           \<and> searchById i s =
               Inr (s\<lparr>cout := cout s @ endl @ ''[Found by ID]'' @ endl @ printDetails (new_Book i t a)\<rparr>)"
proof -
  have I: "inv log s" using assms(1) by (rule reach_inv)
  from assms(2) obtain p where p: "p < length log" "log ! p = (i, t, a)"
    by (auto simp: in_set_conv_nth)
  have k: "HashTable_search (heap s) (idIndex s) i = Inr (Some p)"
    using lookup_present [OF I p(1)] p(2) by simp
  have d: "deref (heap s) p = Inr (new_Book i t a)"
    using p inv_heap_nth [OF I p(1)] invD(8) [OF I] by (simp add: deref_def record_of_def)
  show ?thesis using k d by (auto simp: searchById_def)
qed

lemma absent_key_in_range:
  assumes "reach log s" and "0 \<le> hashFunction i" and "i \<notin> fst ` set log"
  shows "HashTable_search (heap s) (idIndex s) i = Inr None
       \<and> searchById i s =
           Inr (s\<lparr>cout := cout s @ ''Book not found (ID: '' @ show_int (sint i) @ '')'' @ endl\<rparr>)"
  using lookup_absent [OF reach_inv [OF assms(1)] assms(2,3)] by (simp add: searchById_def)

lemma fresh_catalog_in_range:
  "listed fresh = []"
  and "0 \<le> hashFunction i \<Longrightarrow> HashTable_search (heap fresh) (idIndex fresh) i = Inr None"
  and "BST_search (heap fresh) (titleIndex fresh) t = Inr None"
  and "searchByTitle t fresh = Inr (fresh\<lparr>cout := ''Book not found (Title: '' @ t @ '')'' @ endl\<rparr>)"
proof -
  show "listed fresh = []" by (simp add: listed_def fresh_def)
  show "0 \<le> hashFunction i \<Longrightarrow> HashTable_search (heap fresh) (idIndex fresh) i = Inr None"
    using absent_key_in_range [OF reach_fresh, of i] by simp
  show "BST_search (heap fresh) (titleIndex fresh) t = Inr None"
    by (simp add: BST_search_def fresh_def)
  then show "searchByTitle t fresh = Inr (fresh\<lparr>cout := ''Book not found (Title: '' @ t @ '')'' @ endl\<rparr>)"
    by (simp add: searchByTitle_def fresh_def)
qed

lemma listed_title_set: "inv log s \<Longrightarrow> set (map title (listed s)) = title_of ` set log"
  using titles_first [of "heap s"] titles_log [of log s]
  by (simp add: listed_titles invD(7))

lemma one_entry:
  "distinct (map title bs) \<Longrightarrow> t \<in> set (map title bs) \<Longrightarrow> length (filter (\<lambda>b. title b = t) bs) = 1"
proof (induction bs)
  case Nil
  then show ?case by simp
next
  case (Cons b bs)
  show ?case
  proof (cases "title b = t")
    case True
    with Cons.prems(1) have "filter (\<lambda>b. title b = t) bs = []"
      by (force simp: filter_empty_conv image_iff)
    with True show ?thesis by simp
  next
    case False
    with Cons show ?thesis by auto
  qed
qed

lemma shadowing_in_range:
  assumes R: "reach log s"
    and nn: "0 \<le> hashFunction i1" "0 \<le> hashFunction i2"
    and new: "i1 \<notin> fst ` set log" "i2 \<notin> fst ` set log" and ne: "i1 \<noteq> i2"
    and tnew: "t \<notin> title_of ` set log"
  shows "\<exists>s1 s2. addBook i1 t a1 s = Inr s1 \<and> addBook i2 t a2 s1 = Inr s2
           \<and> reach (log @ [(i1, t, a1), (i2, t, a2)]) s2
           \<and> heap s2 = heap s @ [new_Book i1 t a1, new_Book i2 t a2]
           \<and> HashTable_search (heap s2) (idIndex s2) i1 = Inr (Some (length log))
           \<and> HashTable_search (heap s2) (idIndex s2) i2 = Inr (Some (Suc (length log)))
           \<and> BST_search (heap s2) (titleIndex s2) t = Inr (Some (length log))
           \<and> length (filter (\<lambda>b. title b = t) (listed s2)) = 1"
proof -
  let ?log1 = "log @ [(i1, t, a1)]"
  let ?log2 = "log @ [(i1, t, a1), (i2, t, a2)]"
  have I: "inv log s" using R by (rule reach_inv)
  have k1: "HashTable_search (heap s) (idIndex s) i1 = Inr None"
    by (rule lookup_absent [OF I nn(1) new(1)])
  from addBook_added [OF I k1, of t a1] obtain s1 where
    s1: "addBook i1 t a1 s = Inr s1" "inv ?log1 s1" by blast
  have R1: "reach ?log1 s1" by (rule reach_added [OF R k1 s1(1)])
  have k2: "HashTable_search (heap s1) (idIndex s1) i2 = Inr None"
    using new(2) ne by (intro lookup_absent [OF s1(2) nn(2)]) auto
  from addBook_added [OF s1(2) k2, of t a2] obtain s2 where
    s2: "addBook i2 t a2 s1 = Inr s2" "inv (?log1 @ [(i2, t, a2)]) s2" by blast
  have R2: "reach ?log2 s2" using reach_added [OF R1 k2 s2(1)] by simp
  have I2: "inv ?log2 s2" by (rule reach_inv [OF R2])
  have h2: "heap s2 = heap s @ [new_Book i1 t a1, new_Book i2 t a2]"
    by (simp add: invD(1) [OF I2] invD(1) [OF I] record_of_def)
  have f1: "HashTable_search (heap s2) (idIndex s2) i1 = Inr (Some (length log))"
    using lookup_present [OF I2, of "length log"] by (simp add: nth_append)
  have f2: "HashTable_search (heap s2) (idIndex s2) i2 = Inr (Some (Suc (length log)))"
    using lookup_present [OF I2, of "Suc (length log)"] by (simp add: nth_append)
  have "\<forall>q<length log. title_of (?log2 ! q) \<noteq> title_of (?log2 ! length log)"
    using tnew by (auto simp: nth_append title_of_def image_iff)
  then have ft: "BST_search (heap s2) (titleIndex s2) t = Inr (Some (length log))"
    using title_lookup_first [OF I2, of "length log"] by (simp add: nth_append title_of_def)
  have "distinct (map title (listed s2))"
    using listed_strict [OF I2] strict_sorted_iff by blast
  moreover have "t \<in> set (map title (listed s2))"
    by (simp only: listed_title_set [OF I2]) (simp add: title_of_def)
  ultimately have one: "length (filter (\<lambda>b. title b = t) (listed s2)) = 1"
    by (rule one_entry)
  show ?thesis using s1(1) s2(1) R2 h2 f1 f2 ft one by blast
qed

subsection \<open>When the member functions return\<close>

text \<open>
  In a reachable state the out-of-range hash is the only fault: \<open>addBook\<close> and
  \<open>searchById\<close> return exactly for the keys whose hash is not negative, and
  \<open>searchByTitle\<close> and \<open>showAllBooks\<close> always return.
\<close>

lemma addBook_returns_iff:
  assumes "reach log s"
  shows "(\<exists>s'. addBook i t a s = Inr s') \<longleftrightarrow> 0 \<le> hashFunction i"
proof
  assume "\<exists>s'. addBook i t a s = Inr s'"
  then show "0 \<le> hashFunction i"
    using search_inv [OF reach_inv [OF assms], of i]
    by (auto simp: addBook_def split: if_splits)
next
  assume nn: "0 \<le> hashFunction i"
  have I: "inv log s" using assms by (rule reach_inv)
  show "\<exists>s'. addBook i t a s = Inr s'"
  proof (cases "i \<in> fst ` set log")
    case True
    then obtain p where "p < length log" "fst (log ! p) = i"
      by (auto simp: in_set_conv_nth)
    then have "HashTable_search (heap s) (idIndex s) i = Inr (Some p)"
      using lookup_present [OF I, of p] by simp
    then show ?thesis by (simp add: addBook_rejected)
  next
    case False
    from addBook_added [OF I lookup_absent [OF I nn False], of t a] show ?thesis by blast
  qed
qed

lemma searchById_returns_iff:
  assumes "reach log s"
  shows "(\<exists>s'. searchById i s = Inr s') \<longleftrightarrow> 0 \<le> hashFunction i"
proof
  assume "\<exists>s'. searchById i s = Inr s'"
  then show "0 \<le> hashFunction i"
    using search_inv [OF reach_inv [OF assms], of i]
    by (auto simp: searchById_def split: if_splits)
next
  assume nn: "0 \<le> hashFunction i"
  show "\<exists>s'. searchById i s = Inr s'"
  proof (cases "i \<in> fst ` set log")
    case True
    then obtain t a where "(i, t, a) \<in> set log" by force
    from found_by_key [OF assms this] show ?thesis by blast
  next
    case False
    from absent_key_in_range [OF assms nn False] show ?thesis by blast
  qed
qed

lemma searchByTitle_returns:
  assumes "reach log s"
  shows "\<exists>s'. searchByTitle t s = Inr s'"
proof (cases "t \<in> title_of ` set log")
  case False
  have "BST_search (heap s) (titleIndex s) t = Inr None"
    by (rule title_lookup_absent [OF reach_inv [OF assms] False])
  then show ?thesis by (simp add: searchByTitle_def)
next
  case True
  have I: "inv log s" using assms by (rule reach_inv)
  from True obtain p0 where p0: "p0 < length log" "title_of (log ! p0) = t"
    by (auto simp: in_set_conv_nth)
  define p where "p = (LEAST q. title_of (log ! q) = t)"
  have pt: "title_of (log ! p) = t" unfolding p_def using p0(2) by (rule LeastI)
  have "p \<le> p0" unfolding p_def using p0(2) by (rule Least_le)
  then have pl: "p < length log" using p0(1) by simp
  have "\<forall>q<p. title_of (log ! q) \<noteq> t" unfolding p_def using not_less_Least by blast
  then have "BST_search (heap s) (titleIndex s) t = Inr (Some p)"
    using title_lookup_first [OF I pl] pt by simp
  moreover have "p < length (heap s)" using pl by (simp add: invD(8) [OF I])
  ultimately show ?thesis by (simp add: searchByTitle_def deref_def)
qed

lemma showAllBooks_returns: "reach log s \<Longrightarrow> \<exists>s'. showAllBooks s = Inr s'"
  using showAllBooks_listed [OF reach_inv] by blast

subsection \<open>What the member functions write\<close>

text \<open>
  C8, as amended. The member functions perform the output themselves; in every
  reachable state each of them appends its own outcome message to \<open>cout\<close>:
  \<^item> \<open>addBook\<close> with an id not yet added (and a hash in range) adds the book and
    appends \<open>Added: title\<close>; with an id already added it appends
    \<open>Error: Book ID id already exists.\<close> and changes nothing else;
  \<^item> \<open>searchById\<close> with the id of an added book appends \<open>[Found by ID]\<close> and the
    details of that book; with an id never added (and a hash in range) it appends
    \<open>Book not found (ID: id)\<close>;
  \<^item> \<open>searchByTitle\<close> with the title of an added book appends \<open>[Found by Title]\<close>
    and the details of the first book added with that title; with a title never added
    it appends \<open>Book not found (Title: title)\<close>;
  \<^item> \<open>showAllBooks\<close> appends the header, then \<open>No books in the library.\<close> when the
    listing is empty and otherwise the details of the listed books in order, then the
    footer.
\<close>

theorem operations_write_to_cout:
  assumes "reach log s"
  shows
   "(0 \<le> hashFunction i \<and> i \<notin> fst ` set log \<longrightarrow>
       (\<exists>s'. addBook i t a s = Inr s' \<and> reach (log @ [(i, t, a)]) s'
             \<and> cout s' = cout s @ ''Added: '' @ t @ endl))
  \<and> (i \<in> fst ` set log \<longrightarrow>
       addBook i t a s =
         Inr (s\<lparr>cout := cout s @ ''Error: Book ID '' @ show_int (sint i) @ '' already exists.'' @ endl\<rparr>))
  \<and> ((i, t0, a0) \<in> set log \<longrightarrow>
       searchById i s =
         Inr (s\<lparr>cout := cout s @ endl @ ''[Found by ID]'' @ endl @ printDetails (new_Book i t0 a0)\<rparr>))
  \<and> (0 \<le> hashFunction i \<and> i \<notin> fst ` set log \<longrightarrow>
       searchById i s =
         Inr (s\<lparr>cout := cout s @ ''Book not found (ID: '' @ show_int (sint i) @ '')'' @ endl\<rparr>))
  \<and> (p < length log \<and> (\<forall>q<p. title_of (log ! q) \<noteq> title_of (log ! p)) \<longrightarrow>
       searchByTitle (title_of (log ! p)) s =
         Inr (s\<lparr>cout := cout s @ endl @ ''[Found by Title]'' @ endl @ printDetails (record_of (log ! p))\<rparr>))
  \<and> (x \<notin> title_of ` set log \<longrightarrow>
       searchByTitle x s =
         Inr (s\<lparr>cout := cout s @ ''Book not found (Title: '' @ x @ '')'' @ endl\<rparr>))
  \<and> showAllBooks s =
       Inr (s\<lparr>cout := cout s @ endl @ ''=== Library Catalog (Sorted by Title) ==='' @ endl
              @ (if listed s = [] then ''No books in the library.'' @ endl
                 else concat (map printDetails (listed s)))
              @ ''========================================='' @ endl\<rparr>)"
proof -
  have I: "inv log s" using assms by (rule reach_inv)
  have added: "0 \<le> hashFunction i \<and> i \<notin> fst ` set log \<longrightarrow>
       (\<exists>s'. addBook i t a s = Inr s' \<and> reach (log @ [(i, t, a)]) s'
             \<and> cout s' = cout s @ ''Added: '' @ t @ endl)"
  proof
    assume h: "0 \<le> hashFunction i \<and> i \<notin> fst ` set log"
    then have k: "HashTable_search (heap s) (idIndex s) i = Inr None"
      using lookup_absent [OF I] by blast
    from addBook_added [OF I k, of t a] obtain s' where
      s': "addBook i t a s = Inr s'" "cout s' = cout s @ ''Added: '' @ t @ endl" by blast
    from reach_added [OF assms k s'(1)] s'
    show "\<exists>s'. addBook i t a s = Inr s' \<and> reach (log @ [(i, t, a)]) s'
             \<and> cout s' = cout s @ ''Added: '' @ t @ endl" by blast
  qed
  have rejected: "i \<in> fst ` set log \<longrightarrow>
       addBook i t a s =
         Inr (s\<lparr>cout := cout s @ ''Error: Book ID '' @ show_int (sint i) @ '' already exists.'' @ endl\<rparr>)"
  proof
    assume "i \<in> fst ` set log"
    then obtain q where "q < length log" "fst (log ! q) = i"
      by (auto simp: in_set_conv_nth)
    then have "HashTable_search (heap s) (idIndex s) i = Inr (Some q)"
      using lookup_present [OF I, of q] by simp
    then show "addBook i t a s =
         Inr (s\<lparr>cout := cout s @ ''Error: Book ID '' @ show_int (sint i) @ '' already exists.'' @ endl\<rparr>)"
      by (rule addBook_rejected)
  qed
  have found: "(i, t0, a0) \<in> set log \<longrightarrow>
       searchById i s =
         Inr (s\<lparr>cout := cout s @ endl @ ''[Found by ID]'' @ endl @ printDetails (new_Book i t0 a0)\<rparr>)"
    using found_by_key [OF assms] by blast
  have missing: "0 \<le> hashFunction i \<and> i \<notin> fst ` set log \<longrightarrow>
       searchById i s =
         Inr (s\<lparr>cout := cout s @ ''Book not found (ID: '' @ show_int (sint i) @ '')'' @ endl\<rparr>)"
    using absent_key_in_range [OF assms] by blast
  have titled: "p < length log \<and> (\<forall>q<p. title_of (log ! q) \<noteq> title_of (log ! p)) \<longrightarrow>
       searchByTitle (title_of (log ! p)) s =
         Inr (s\<lparr>cout := cout s @ endl @ ''[Found by Title]'' @ endl @ printDetails (record_of (log ! p))\<rparr>)"
  proof
    assume h: "p < length log \<and> (\<forall>q<p. title_of (log ! q) \<noteq> title_of (log ! p))"
    then have "BST_search (heap s) (titleIndex s) (title_of (log ! p)) = Inr (Some p)"
      using title_lookup_first [OF I] by blast
    moreover have "deref (heap s) p = Inr (record_of (log ! p))"
      using h inv_heap_nth [OF I] invD(8) [OF I] by (simp add: deref_def)
    ultimately show "searchByTitle (title_of (log ! p)) s =
         Inr (s\<lparr>cout := cout s @ endl @ ''[Found by Title]'' @ endl @ printDetails (record_of (log ! p))\<rparr>)"
      by (simp add: searchByTitle_def)
  qed
  have untitled: "x \<notin> title_of ` set log \<longrightarrow>
       searchByTitle x s =
         Inr (s\<lparr>cout := cout s @ ''Book not found (Title: '' @ x @ '')'' @ endl\<rparr>)"
  proof
    assume "x \<notin> title_of ` set log"
    then have "BST_search (heap s) (titleIndex s) x = Inr None"
      by (rule title_lookup_absent [OF I])
    then show "searchByTitle x s =
         Inr (s\<lparr>cout := cout s @ ''Book not found (Title: '' @ x @ '')'' @ endl\<rparr>)"
      by (simp add: searchByTitle_def)
  qed
  from added rejected found missing titled untitled showAllBooks_listed [OF I]
  show ?thesis by (intro conjI)
qed

theorem operations_write_to_cout_witness:
  "addBook 1001 ''Dup'' ''Z'' demo =
     Inr (demo\<lparr>cout := cout demo @ ''Error: Book ID '' @ show_int 1001 @ '' already exists.'' @ endl\<rparr>)
 \<and> (\<exists>s'. addBook 7 ''New'' ''N'' demo = Inr s' \<and> cout s' = cout demo @ ''Added: New'' @ endl)
 \<and> searchById 1003 demo =
     Inr (demo\<lparr>cout := cout demo @ endl @ ''[Found by ID]'' @ endl @ printDetails (new_Book 1003 ''Mid'' ''C'')\<rparr>)
 \<and> searchById 7 demo =
     Inr (demo\<lparr>cout := cout demo @ ''Book not found (ID: '' @ show_int 7 @ '')'' @ endl\<rparr>)
 \<and> searchByTitle ''Mid'' demo =
     Inr (demo\<lparr>cout := cout demo @ endl @ ''[Found by Title]'' @ endl @ printDetails (new_Book 1003 ''Mid'' ''C'')\<rparr>)
 \<and> searchByTitle ''Nil'' demo =
     Inr (demo\<lparr>cout := cout demo @ ''Book not found (Title: Nil)'' @ endl\<rparr>)
 \<and> showAllBooks demo =
     Inr (demo\<lparr>cout := cout demo @ endl @ ''=== Library Catalog (Sorted by Title) ==='' @ endl
            @ printDetails (new_Book 1002 ''Abe'' ''B'') @ printDetails (new_Book 1003 ''Mid'' ''C'')
            @ printDetails (new_Book 1001 ''Zed'' ''A'')
            @ ''========================================='' @ endl\<rparr>)"
proof -
  have dup: "1001 \<in> fst ` set demo_log" by (simp add: demo_log_def)
  have new: "0 \<le> hashFunction 7 \<and> 7 \<notin> fst ` set demo_log" by (simp add: demo_log_def)
  have mem: "(1003, ''Mid'', ''C'') \<in> set demo_log" by (simp add: demo_log_def)
  have first: "2 < length demo_log
      \<and> (\<forall>q<2. title_of (demo_log ! q) \<noteq> title_of (demo_log ! 2))"
    by (simp add: demo_log_def title_of_def less_Suc_eq numeral_2_eq_2)
  have nil: "''Nil'' \<notin> title_of ` set demo_log" by (simp add: demo_log_def title_of_def)
  have l: "listed demo = [new_Book 1002 ''Abe'' ''B'', new_Book 1003 ''Mid'' ''C'', new_Book 1001 ''Zed'' ''A'']"
    by (simp add: listed_def demo_def demo_log_def record_of_def)
  have r: "title_of (demo_log ! 2) = ''Mid''" "record_of (demo_log ! 2) = new_Book 1003 ''Mid'' ''C''"
    by (simp_all add: demo_log_def title_of_def record_of_def)
  note T1 = operations_write_to_cout [OF reach_demo, of 1001 "''Dup''" "''Z''" "''Mid''" "''C''" 2 "''Nil''"]
  note T2 = operations_write_to_cout [OF reach_demo, of 7 "''New''" "''N''" "''Mid''" "''C''" 2 "''Nil''"]
  note T3 = operations_write_to_cout [OF reach_demo, of 1003 "''New''" "''N''" "''Mid''" "''C''" 2 "''Nil''"]
  have c1: "addBook 1001 ''Dup'' ''Z'' demo =
     Inr (demo\<lparr>cout := cout demo @ ''Error: Book ID '' @ show_int 1001 @ '' already exists.'' @ endl\<rparr>)"
    using T1 dup by simp
  have c2: "\<exists>s'. addBook 7 ''New'' ''N'' demo = Inr s' \<and> cout s' = cout demo @ ''Added: New'' @ endl"
    using T2 new by auto
  have c3: "searchById 1003 demo =
     Inr (demo\<lparr>cout := cout demo @ endl @ ''[Found by ID]'' @ endl @ printDetails (new_Book 1003 ''Mid'' ''C'')\<rparr>)"
    using T3 mem by blast
  have c4: "searchById 7 demo =
     Inr (demo\<lparr>cout := cout demo @ ''Book not found (ID: '' @ show_int 7 @ '')'' @ endl\<rparr>)"
    using T2 new by simp
  have c5: "searchByTitle ''Mid'' demo =
     Inr (demo\<lparr>cout := cout demo @ endl @ ''[Found by Title]'' @ endl @ printDetails (new_Book 1003 ''Mid'' ''C'')\<rparr>)"
    using T2 first r by simp
  have c6: "searchByTitle ''Nil'' demo =
     Inr (demo\<lparr>cout := cout demo @ ''Book not found (Title: Nil)'' @ endl\<rparr>)"
    using T2 nil by simp
  have c7: "showAllBooks demo =
     Inr (demo\<lparr>cout := cout demo @ endl @ ''=== Library Catalog (Sorted by Title) ==='' @ endl
            @ printDetails (new_Book 1002 ''Abe'' ''B'') @ printDetails (new_Book 1003 ''Mid'' ''C'')
            @ printDetails (new_Book 1001 ''Zed'' ''A'')
            @ ''========================================='' @ endl\<rparr>)"
    using T2 l by simp
  from c1 c2 c3 c4 c5 c6 c7 show ?thesis by (intro conjI)
qed

end
